theory Spec2Isabelle
  imports Main "HOL-Library.Multiset"
begin

section \<open>The port scanner of \<open>portscanner.c\<close>\<close>

text \<open>
  The program has three functions: \<open>scan_port\<close> (one non-blocking connect with a
  timeout), \<open>worker\<close> (the thread body: one \<open>scan_port\<close> call, then \<open>sem_post\<close>)
  and \<open>main\<close> (validation of the port range, creation of the semaphore, the dispatch
  loop and the final drain loop).

  What the operating system answers is an input of the model: the results of
  \<open>socket\<close>, \<open>connect\<close>, \<open>select\<close> and \<open>getsockopt\<close> for each probe, whether
  \<open>malloc\<close> and \<open>pthread_create\<close> succeed for each port, and whether \<open>sem_open\<close>
  succeeds. The interleaving of the threads is an input as well: a schedule is the list
  of the threads that move, one atomic step each. A thread that is blocked in
  \<open>sem_wait\<close> cannot move.

  Everything the program does that can be observed is appended to a trace of events.

  The model starts at line 155, with the values the options were read into. The calls
  whose result the source does not look at (\<open>fcntl\<close>, \<open>inet_pton\<close>, \<open>getsockopt\<close>,
  \<open>close\<close>, \<open>sem_wait\<close>, \<open>sem_post\<close>, \<open>pthread_detach\<close>) are taken to do what
  they are called for. \<open>scan_port\<close> shares nothing with the other threads, so one call
  is one step of its worker; the steps are cut at the operations on the semaphore.
\<close>

subsection \<open>Constants of the system headers\<close>

text \<open>The values of glibc on Linux.\<close>

definition EXIT_FAILURE :: int where
  "EXIT_FAILURE = 1"

definition EINPROGRESS :: int where
  "EINPROGRESS = 115"

definition SEM_VALUE_MAX :: int where
  "SEM_VALUE_MAX = 2147483647"

text \<open>The values of a C \<open>int\<close> (32 bits).\<close>

definition c_int :: "int \<Rightarrow> bool" where
  "c_int x \<longleftrightarrow> - 2147483648 \<le> x \<and> x \<le> 2147483647"

subsection \<open>Events\<close>

datatype event =
    Perror string           \<comment> \<open>\<open>perror(s)\<close>, a line on stderr\<close>
  | Fprintf_stderr string   \<comment> \<open>\<open>fprintf(stderr, s)\<close>\<close>
  | Printf string int       \<comment> \<open>\<open>printf(fmt, port)\<close>, a line on stdout\<close>
  | Socket_created int      \<comment> \<open>\<open>socket\<close> returned this descriptor\<close>
  | Close int               \<comment> \<open>\<open>close(sockfd)\<close>\<close>
  | Sem_acquire int         \<comment> \<open>\<open>sem_wait\<close> returned in the dispatch iteration of this port\<close>
  | Sem_release int         \<comment> \<open>\<open>sem_post\<close> for the slot of this port\<close>
  | Sem_drain int           \<comment> \<open>\<open>sem_wait\<close> returned in iteration \<open>i\<close> of the drain loop\<close>
  | Thread_created int      \<comment> \<open>\<open>pthread_create\<close> succeeded for this port\<close>
  | Scan_return int int     \<comment> \<open>\<open>scan_port\<close> for this port returned this value\<close>

fun is_output :: "event \<Rightarrow> bool" where
  "is_output (Perror _) = True"
| "is_output (Fprintf_stderr _) = True"
| "is_output (Printf _ _) = True"
| "is_output _ = False"

subsection \<open>\<open>scan_port\<close>\<close>

text \<open>
  What the system calls of one probe answer: the return value of \<open>socket\<close>, the return
  value of \<open>connect\<close> and the \<open>errno\<close> it leaves, the return value of \<open>select\<close>, and
  the value of \<open>error\<close> after \<open>getsockopt(SO_ERROR)\<close>.
\<close>

record os_probe =
  socket_ret :: int
  connect_ret :: int
  connect_errno :: int
  select_ret :: int
  so_error :: int

text \<open>
  The function returns the events of the call and its return value. Each \<open>return\<close> of
  the source is one branch; the fall-through to the second \<open>close\<close> (line 79) is reached
  from three places, and is written once as \<open>closed_exit\<close>.
\<close>

definition open_exit :: "int \<Rightarrow> int \<Rightarrow> int \<Rightarrow> event list \<times> int" where
  "open_exit sockfd port verbose =
     ([Socket_created sockfd, Close sockfd] @
      (if verbose \<noteq> 0 then [Printf ''Port %d open\<newline>'' port] else []), 1)"

definition closed_exit :: "int \<Rightarrow> int \<Rightarrow> int \<Rightarrow> event list \<times> int" where
  "closed_exit sockfd port verbose =
     ([Socket_created sockfd, Close sockfd] @
      (if verbose \<noteq> 0 then [Printf ''Port %d closed or timeout\<newline>'' port] else []), 0)"

definition scan_port :: "os_probe \<Rightarrow> string \<Rightarrow> int \<Rightarrow> int \<Rightarrow> int \<Rightarrow> event list \<times> int" where
  "scan_port os ip port timeout_sec verbose =
     (let sockfd = socket_ret os in
      if sockfd < 0 then ((if verbose \<noteq> 0 then [Perror ''socket''] else []), 0)
      else
        let res = connect_ret os in
        if res < 0 then
          (if connect_errno os = EINPROGRESS then
             (let res = select_ret os in
              if res > 0 then
                (let error = so_error os in
                 if error = 0 then open_exit sockfd port verbose
                 else closed_exit sockfd port verbose)
              else closed_exit sockfd port verbose)
           else closed_exit sockfd port verbose)
        else open_exit sockfd port verbose)"

subsection \<open>Configuration, tasks and the state of a run\<close>

text \<open>The local variables of \<open>main\<close> after the options have been read.\<close>

record config =
  ip :: string
  start_port :: int
  end_port :: int
  timeout_sec :: int
  concurrency :: int
  verbose :: int

record scan_task =
  task_ip :: string
  task_port :: int
  task_timeout_sec :: int
  task_verbose :: int

text \<open>What the operating system answers during one run.\<close>

record os_env =
  sem_open_ok :: bool
  malloc_ok :: "int \<Rightarrow> bool"
  pthread_create_ok :: "int \<Rightarrow> bool"
  probe_os :: "int \<Rightarrow> os_probe"

text \<open>
  The program counter of \<open>main\<close>: before the \<open>sem_wait\<close> of the dispatch loop with the
  loop variable \<open>port\<close> (line 169), after it (line 172), before the \<open>sem_wait\<close> of the
  drain loop with the loop variable \<open>i\<close> (line 194), and after \<open>return\<close>.
\<close>

datatype main_pc = At_wait int | Holding int | Drain int | Returned int

text \<open>
  The program counter of a worker thread: before \<open>scan_port\<close> (line 97), before
  \<open>sem_post\<close> (line 98), and after it.
\<close>

datatype worker_pc = W_scan | W_post | W_done

record state =
  sem :: int
  pc :: main_pc
  threads :: "(scan_task \<times> worker_pc) list"
  trace :: "event list"

subsection \<open>\<open>main\<close> up to the dispatch loop (lines 155 to 166)\<close>

text \<open>
  \<open>sem_open\<close> takes the initial value as an \<open>unsigned int\<close>, so the \<open>int\<close>
  \<open>concurrency\<close> is converted modulo \<open>2 ^ 32\<close>. POSIX: \<open>sem_open\<close> fails with
  \<open>EINVAL\<close> when the value is greater than \<open>SEM_VALUE_MAX\<close>; it may fail for other
  reasons, which is \<open>sem_open_ok\<close>.
\<close>

definition sem_open :: "bool \<Rightarrow> int \<Rightarrow> int option" where
  "sem_open ok v = (if \<not> ok \<or> v > SEM_VALUE_MAX then None else Some v)"

definition main_setup :: "os_env \<Rightarrow> config \<Rightarrow> (event list \<times> int) + state" where
  "main_setup env cfg =
     (if start_port cfg > end_port cfg \<or> start_port cfg < 1 \<or> end_port cfg > 65535
      then Inl ([Fprintf_stderr ''Invalid port range\<newline>''], EXIT_FAILURE)
      else
        case sem_open (sem_open_ok env) (concurrency cfg mod 2 ^ 32) of
          None \<Rightarrow> Inl ([Perror ''sem_open''], EXIT_FAILURE)
        | Some v \<Rightarrow>
            Inr \<lparr>sem = v, pc = At_wait (start_port cfg), threads = [], trace = []\<rparr>)"

subsection \<open>The steps of \<open>main\<close> and of the workers\<close>

definition new_task :: "config \<Rightarrow> int \<Rightarrow> scan_task" where
  "new_task cfg port =
     \<lparr>task_ip = take 63 (ip cfg), task_port = port,
      task_timeout_sec = timeout_sec cfg, task_verbose = verbose cfg\<rparr>"

fun main_step :: "os_env \<Rightarrow> config \<Rightarrow> state \<Rightarrow> state option" where
  "main_step env cfg s =
     (case pc s of
        At_wait port \<Rightarrow>
          if port \<le> end_port cfg then
            (if sem s > 0
             then Some (s\<lparr>sem := sem s - 1, pc := Holding port,
                         trace := trace s @ [Sem_acquire port]\<rparr>)
             else None)
          else Some (s\<lparr>pc := Drain 0\<rparr>)
      | Holding port \<Rightarrow>
          if \<not> malloc_ok env port then
            Some (s\<lparr>sem := sem s + 1, pc := At_wait (port + 1),
                    trace := trace s @ [Perror ''malloc'', Sem_release port]\<rparr>)
          else if \<not> pthread_create_ok env port then
            Some (s\<lparr>sem := sem s + 1, pc := At_wait (port + 1),
                    trace := trace s @ [Perror ''pthread_create'', Sem_release port]\<rparr>)
          else
            Some (s\<lparr>pc := At_wait (port + 1),
                    threads := threads s @ [(new_task cfg port, W_scan)],
                    trace := trace s @ [Thread_created port]\<rparr>)
      | Drain i \<Rightarrow>
          if i < concurrency cfg then
            (if sem s > 0
             then Some (s\<lparr>sem := sem s - 1, pc := Drain (i + 1),
                         trace := trace s @ [Sem_drain i]\<rparr>)
             else None)
          else Some (s\<lparr>pc := Returned 0\<rparr>)
      | Returned r \<Rightarrow> None)"

text \<open>
  Thread \<open>k\<close> is the \<open>k\<close>-th thread that was created. Once \<open>main\<close> has returned the
  process is over and no thread moves.
\<close>

fun worker_step :: "os_env \<Rightarrow> nat \<Rightarrow> state \<Rightarrow> state option" where
  "worker_step env k s =
     (case pc s of
        Returned r \<Rightarrow> None
      | _ \<Rightarrow>
          if k < length (threads s) then
            (case threads s ! k of
               (task, W_scan) \<Rightarrow>
                 (let (evs, r) = scan_port (probe_os env (task_port task)) (task_ip task)
                                   (task_port task) (task_timeout_sec task) (task_verbose task)
                  in Some (s\<lparr>threads := (threads s)[k := (task, W_post)],
                             trace := trace s @ evs @ [Scan_return (task_port task) r]\<rparr>))
             | (task, W_post) \<Rightarrow>
                 Some (s\<lparr>sem := sem s + 1,
                         threads := (threads s)[k := (task, W_done)],
                         trace := trace s @ [Sem_release (task_port task)]\<rparr>)
             | (task, W_done) \<Rightarrow> None)
          else None)"

datatype actor = Main | Thread nat

fun step :: "os_env \<Rightarrow> config \<Rightarrow> actor \<Rightarrow> state \<Rightarrow> state option" where
  "step env cfg Main s = main_step env cfg s"
| "step env cfg (Thread k) s = worker_step env k s"

fun exec :: "os_env \<Rightarrow> config \<Rightarrow> actor list \<Rightarrow> state \<Rightarrow> state option" where
  "exec env cfg [] s = Some s"
| "exec env cfg (a # as) s =
     (case step env cfg a s of None \<Rightarrow> None | Some s' \<Rightarrow> exec env cfg as s')"

text \<open>
  The whole program from line 155 on: either it exits during the setup, with the lines
  it printed and its exit status, or it runs under the schedule. \<open>None\<close> is a schedule
  that asks a blocked or finished thread to move.
\<close>

definition run :: "os_env \<Rightarrow> config \<Rightarrow> actor list \<Rightarrow> (event list \<times> int) + state option" where
  "run env cfg sched =
     (case main_setup env cfg of
        Inl r \<Rightarrow> Inl r
      | Inr s0 \<Rightarrow> Inr (exec env cfg sched s0))"

subsection \<open>Reading a trace\<close>

fun opened :: "event list \<Rightarrow> int list" where
  "opened [] = []"
| "opened (Socket_created fd # es) = fd # opened es"
| "opened (_ # es) = opened es"

fun closed :: "event list \<Rightarrow> int list" where
  "closed [] = []"
| "closed (Close fd # es) = fd # closed es"
| "closed (_ # es) = closed es"

fun acquired :: "event list \<Rightarrow> int list" where
  "acquired [] = []"
| "acquired (Sem_acquire p # es) = p # acquired es"
| "acquired (_ # es) = acquired es"

fun released :: "event list \<Rightarrow> int list" where
  "released [] = []"
| "released (Sem_release p # es) = p # released es"
| "released (_ # es) = released es"

fun launched :: "event list \<Rightarrow> int list" where
  "launched [] = []"
| "launched (Thread_created p # es) = p # launched es"
| "launched (_ # es) = launched es"

fun probed :: "event list \<Rightarrow> int list" where
  "probed [] = []"
| "probed (Scan_return p r # es) = p # probed es"
| "probed (_ # es) = probed es"

text \<open>The number of slots in use is what is missing from the semaphore.\<close>

definition slots_in_use :: "config \<Rightarrow> state \<Rightarrow> int" where
  "slots_in_use cfg s = concurrency cfg - sem s"

definition launch_ok :: "os_env \<Rightarrow> int \<Rightarrow> bool" where
  "launch_ok env p \<longleftrightarrow> malloc_ok env p \<and> pthread_create_ok env p"

text \<open>A probe is in flight from the creation of its thread to its \<open>sem_post\<close>.\<close>

definition in_flight :: "state \<Rightarrow> scan_task list" where
  "in_flight s = map fst (filter (\<lambda>tw. snd tw \<noteq> W_done) (threads s))"

subsection \<open>Invariants of a run\<close>

text \<open>The ports below \<open>cur_port\<close> have been through the dispatch loop.\<close>

fun cur_port :: "config \<Rightarrow> main_pc \<Rightarrow> int" where
  "cur_port cfg (At_wait p) = p"
| "cur_port cfg (Holding p) = p"
| "cur_port cfg (Drain i) = end_port cfg + 1"
| "cur_port cfg (Returned r) = end_port cfg + 1"

text \<open>
  The permits \<open>main\<close> holds itself: the one of the current iteration between its
  \<open>sem_wait\<close> and the launch, and the ones taken by the drain loop.
\<close>

fun main_held :: "config \<Rightarrow> main_pc \<Rightarrow> int" where
  "main_held cfg (At_wait p) = 0"
| "main_held cfg (Holding p) = 1"
| "main_held cfg (Drain i) = i"
| "main_held cfg (Returned r) = concurrency cfg"

fun holding :: "main_pc \<Rightarrow> int list" where
  "holding (Holding p) = [p]"
| "holding _ = []"

fun pc_ok :: "config \<Rightarrow> main_pc \<Rightarrow> bool" where
  "pc_ok cfg (At_wait p) \<longleftrightarrow> start_port cfg \<le> p \<and> p \<le> end_port cfg + 1"
| "pc_ok cfg (Holding p) \<longleftrightarrow> start_port cfg \<le> p \<and> p \<le> end_port cfg"
| "pc_ok cfg (Drain i) \<longleftrightarrow> 0 \<le> i \<and> i \<le> concurrency cfg"
| "pc_ok cfg (Returned r) \<longleftrightarrow> r = 0"

definition ports_where :: "(worker_pc \<Rightarrow> bool) \<Rightarrow> (scan_task \<times> worker_pc) list \<Rightarrow> int list" where
  "ports_where P ts = map (\<lambda>tw. task_port (fst tw)) (filter (\<lambda>tw. P (snd tw)) ts)"

definition slot_inv :: "config \<Rightarrow> state \<Rightarrow> bool" where
  "slot_inv cfg s \<longleftrightarrow>
     0 \<le> concurrency cfg \<and> 0 \<le> sem s \<and> pc_ok cfg (pc s) \<and>
     sem s + int (length (in_flight s)) + main_held cfg (pc s) = concurrency cfg"

definition dispatch_inv :: "os_env \<Rightarrow> config \<Rightarrow> state \<Rightarrow> bool" where
  "dispatch_inv env cfg s \<longleftrightarrow>
     map fst (threads s) =
       map (new_task cfg) (filter (launch_ok env) [start_port cfg .. cur_port cfg (pc s) - 1]) \<and>
     acquired (trace s) = [start_port cfg .. cur_port cfg (pc s) - 1] @ holding (pc s) \<and>
     launched (trace s) = filter (launch_ok env) [start_port cfg .. cur_port cfg (pc s) - 1]"

definition release_inv :: "os_env \<Rightarrow> config \<Rightarrow> state \<Rightarrow> bool" where
  "release_inv env cfg s \<longleftrightarrow>
     mset (released (trace s)) =
       mset (filter (\<lambda>p. \<not> launch_ok env p) [start_port cfg .. cur_port cfg (pc s) - 1]) +
       mset (ports_where (\<lambda>w. w = W_done) (threads s)) \<and>
     mset (probed (trace s)) = mset (ports_where (\<lambda>w. w \<noteq> W_scan) (threads s)) \<and>
     mset (opened (trace s)) = mset (closed (trace s))"

text \<open>The line \<open>main\<close> prints when the launch of a port fails.\<close>

definition launch_diagnostic :: "os_env \<Rightarrow> int \<Rightarrow> event" where
  "launch_diagnostic env p =
     (if \<not> malloc_ok env p then Perror ''malloc'' else Perror ''pthread_create'')"

definition quiet_inv :: "os_env \<Rightarrow> config \<Rightarrow> state \<Rightarrow> bool" where
  "quiet_inv env cfg s \<longleftrightarrow>
     filter is_output (trace s) =
       map (launch_diagnostic env)
         (filter (\<lambda>p. \<not> launch_ok env p) [start_port cfg .. cur_port cfg (pc s) - 1])"

definition run_inv :: "os_env \<Rightarrow> config \<Rightarrow> state \<Rightarrow> bool" where
  "run_inv env cfg s \<longleftrightarrow>
     slot_inv cfg s \<and> dispatch_inv env cfg s \<and> release_inv env cfg s \<and>
     (verbose cfg = 0 \<longrightarrow> quiet_inv env cfg s)"

text \<open>
  The steps that are left: each worker has two (the probe, then \<open>sem_post\<close>), and
  \<open>main\<close> has the remaining iterations of the dispatch and of the drain. A launch
  costs \<open>main\<close> three and gives the new worker two.
\<close>

fun worker_work :: "worker_pc \<Rightarrow> nat" where
  "worker_work W_scan = 2"
| "worker_work W_post = 1"
| "worker_work W_done = 0"

fun main_work :: "config \<Rightarrow> main_pc \<Rightarrow> nat" where
  "main_work cfg (At_wait p) = 4 * nat (end_port cfg + 1 - p) + nat (concurrency cfg) + 2"
| "main_work cfg (Holding p) = 4 * nat (end_port cfg + 1 - p) + nat (concurrency cfg) + 1"
| "main_work cfg (Drain i) = nat (concurrency cfg - i) + 1"
| "main_work cfg (Returned r) = 0"

definition work :: "config \<Rightarrow> state \<Rightarrow> nat" where
  "work cfg s = sum_list (map (\<lambda>tw. worker_work (snd tw)) (threads s)) + main_work cfg (pc s)"

subsection \<open>Example inputs\<close>

text \<open>
  A probe whose \<open>select\<close> runs into the timeout, one whose connection is refused
  (\<open>ECONNREFUSED\<close> is 111), one whose \<open>select\<close> fails, and one that connects.
\<close>

definition os_timeout :: os_probe where
  "os_timeout = \<lparr>socket_ret = 3, connect_ret = - 1, connect_errno = 115,
                  select_ret = 0, so_error = 0\<rparr>"

definition os_refused :: os_probe where
  "os_refused = \<lparr>socket_ret = 3, connect_ret = - 1, connect_errno = 115,
                  select_ret = 1, so_error = 111\<rparr>"

definition os_select_fails :: os_probe where
  "os_select_fails = \<lparr>socket_ret = 3, connect_ret = - 1, connect_errno = 115,
                       select_ret = - 1, so_error = 0\<rparr>"

definition os_open :: os_probe where
  "os_open = \<lparr>socket_ret = 3, connect_ret = - 1, connect_errno = 115,
               select_ret = 1, so_error = 0\<rparr>"

text \<open>An operating system where everything succeeds and nothing listens.\<close>

definition env_ok :: os_env where
  "env_ok = \<lparr>sem_open_ok = True, malloc_ok = (\<lambda>p. True),
              pthread_create_ok = (\<lambda>p. True), probe_os = (\<lambda>p. os_refused)\<rparr>"

definition cfg_reversed :: config where
  "cfg_reversed = \<lparr>ip = ''127.0.0.1'', start_port = 100, end_port = 50, timeout_sec = 1,
                    concurrency = 50, verbose = 0\<rparr>"




text \<open>
  Two ports and one slot, with a \<open>malloc\<close> that fails for port 2: the schedule runs the
  probe of port 1 to its end, then \<open>main\<close> to its return.
\<close>

definition env_malloc_fails :: os_env where
  "env_malloc_fails = \<lparr>sem_open_ok = True, malloc_ok = (\<lambda>p. p \<noteq> 2),
                        pthread_create_ok = (\<lambda>p. True), probe_os = (\<lambda>p. os_refused)\<rparr>"

definition cfg_two_ports :: config where
  "cfg_two_ports = \<lparr>ip = ''127.0.0.1'', start_port = 1, end_port = 2, timeout_sec = 1,
                     concurrency = 1, verbose = 0\<rparr>"

definition init_two_ports :: state where
  "init_two_ports = \<lparr>sem = 1, pc = At_wait 1, threads = [], trace = []\<rparr>"

definition task_one :: scan_task where
  "task_one = \<lparr>task_ip = ''127.0.0.1'', task_port = 1, task_timeout_sec = 1, task_verbose = 0\<rparr>"

definition task_two :: scan_task where
  "task_two = \<lparr>task_ip = ''127.0.0.1'', task_port = 2, task_timeout_sec = 1, task_verbose = 0\<rparr>"

definition sched_to_posting :: "actor list" where
  "sched_to_posting = [Main, Main, Thread 0]"

definition state_posting :: state where
  "state_posting =
     \<lparr>sem = 0, pc = At_wait 2, threads = [(task_one, W_post)],
      trace = [Sem_acquire 1, Thread_created 1, Socket_created 3, Close 3, Scan_return 1 0]\<rparr>"

definition sched_to_holding :: "actor list" where
  "sched_to_holding = [Main, Main, Thread 0, Thread 0, Main]"

definition state_holding :: state where
  "state_holding =
     \<lparr>sem = 0, pc = Holding 2, threads = [(task_one, W_done)],
      trace = [Sem_acquire 1, Thread_created 1, Socket_created 3, Close 3, Scan_return 1 0,
               Sem_release 1, Sem_acquire 2]\<rparr>"

definition sched_failing :: "actor list" where
  "sched_failing = [Main, Main, Thread 0, Thread 0, Main, Main, Main, Main, Main]"

definition state_failing :: state where
  "state_failing =
     \<lparr>sem = 0, pc = Returned 0, threads = [(task_one, W_done)],
      trace = [Sem_acquire 1, Thread_created 1, Socket_created 3, Close 3, Scan_return 1 0,
               Sem_release 1, Sem_acquire 2, Perror ''malloc'', Sem_release 2, Sem_drain 0]\<rparr>"

text \<open>The same two ports when every launch succeeds.\<close>

definition sched_complete :: "actor list" where
  "sched_complete =
     [Main, Main, Thread 0, Thread 0, Main, Main, Thread 1, Thread 1, Main, Main, Main]"

definition state_complete :: state where
  "state_complete =
     \<lparr>sem = 0, pc = Returned 0, threads = [(task_one, W_done), (task_two, W_done)],
      trace = [Sem_acquire 1, Thread_created 1, Socket_created 3, Close 3, Scan_return 1 0,
               Sem_release 1, Sem_acquire 2, Thread_created 2, Socket_created 3, Close 3,
               Scan_return 2 0, Sem_release 2, Sem_drain 0]\<rparr>"

text \<open>
  Two slots: \<open>main\<close> launches port 1 and takes the slot of port 2 while the probe of
  port 1 has not run.
\<close>

definition cfg_two_slots :: config where
  "cfg_two_slots = \<lparr>ip = ''127.0.0.1'', start_port = 1, end_port = 2, timeout_sec = 1,
                     concurrency = 2, verbose = 0\<rparr>"

definition init_two_slots :: state where
  "init_two_slots = \<lparr>sem = 2, pc = At_wait 1, threads = [], trace = []\<rparr>"

definition state_ahead :: state where
  "state_ahead =
     \<lparr>sem = 0, pc = Holding 2, threads = [(task_one, W_scan)],
      trace = [Sem_acquire 1, Thread_created 1, Sem_acquire 2]\<rparr>"

section \<open>Properties of \<open>scan_port\<close>\<close>

lemmas scan_port_defs = scan_port_def open_exit_def closed_exit_def Let_def

text \<open>
  C3, as the code has it. The claim names four outcomes, \<open>Open\<close>, \<open>Closed\<close>,
  \<open>Timeout\<close> and \<open>Error\<close>. The function has two: it returns 1 when \<open>connect\<close>
  succeeds at once or when \<open>select\<close> reports readiness and the pending error is zero,
  and 0 in every other case. A refusal, a timeout and a failure of \<open>select\<close> give the
  same events and the same return value.
\<close>

theorem scan_port_timeout_not_distinct:
  "scan_port os_timeout ''127.0.0.1'' 80 1 1 = scan_port os_refused ''127.0.0.1'' 80 1 1 \<and>
   scan_port os_select_fails ''127.0.0.1'' 80 1 1 = scan_port os_refused ''127.0.0.1'' 80 1 1 \<and>
   scan_port os_refused ''127.0.0.1'' 80 1 1 =
     ([Socket_created 3, Close 3, Printf ''Port %d closed or timeout\<newline>'' 80], 0)"
  by (simp add: scan_port_defs os_timeout_def os_refused_def os_select_fails_def EINPROGRESS_def)

text \<open>
  C3, amended: the return value is 1 exactly when the socket was created and either
  \<open>connect\<close> succeeded at once or it was in progress, \<open>select\<close> reported readiness and
  the pending error is zero; otherwise it is 0. With the verbose flag on and the socket
  created, the only line printed is the "open" line in the first case and the
  "closed or timeout" line in the second.
\<close>

theorem scan_port_two_outcomes:
  "snd (scan_port os h p t v) =
     (if 0 \<le> socket_ret os \<and>
         (0 \<le> connect_ret os \<or>
          connect_errno os = EINPROGRESS \<and> 0 < select_ret os \<and> so_error os = 0)
      then 1 else 0) \<and>
   filter is_output (fst (scan_port os h p t v)) =
     (if v = 0 then []
      else if socket_ret os < 0 then [Perror ''socket'']
      else if snd (scan_port os h p t v) = 1 then [Printf ''Port %d open\<newline>'' p]
      else [Printf ''Port %d closed or timeout\<newline>'' p])"
  by (simp add: scan_port_defs)

theorem scan_port_two_outcomes_witness:
  "snd (scan_port os_open ''127.0.0.1'' 80 1 1) = 1 \<and>
   filter is_output (fst (scan_port os_open ''127.0.0.1'' 80 1 1)) =
     [Printf ''Port %d open\<newline>'' 80] \<and>
   snd (scan_port os_timeout ''127.0.0.1'' 80 1 1) = 0 \<and>
   filter is_output (fst (scan_port os_timeout ''127.0.0.1'' 80 1 1)) =
     [Printf ''Port %d closed or timeout\<newline>'' 80]"
  using scan_port_two_outcomes [of os_open "''127.0.0.1''" 80 1 1]
    scan_port_two_outcomes [of os_timeout "''127.0.0.1''" 80 1 1]
  by (simp add: os_open_def os_timeout_def EINPROGRESS_def)

text \<open>
  C8: when \<open>socket\<close> succeeded, the events of the call are the creation of the socket,
  one \<open>close\<close> of that descriptor, and after it the line printed, if any. So the socket
  is closed exactly once on every path, before \<open>scan_port\<close> returns.
\<close>

theorem scan_port_closes_socket:
  "0 \<le> socket_ret os \<Longrightarrow>
   fst (scan_port os h p t v) =
     [Socket_created (socket_ret os), Close (socket_ret os)] @
     filter is_output (fst (scan_port os h p t v)) \<and>
   opened (fst (scan_port os h p t v)) = [socket_ret os] \<and>
   closed (fst (scan_port os h p t v)) = [socket_ret os]"
  by (simp add: scan_port_defs)

theorem scan_port_closes_socket_witness:
  "0 \<le> socket_ret os_select_fails \<and>
   fst (scan_port os_select_fails ''127.0.0.1'' 80 1 1) =
     [Socket_created 3, Close 3] @
     filter is_output (fst (scan_port os_select_fails ''127.0.0.1'' 80 1 1)) \<and>
   opened (fst (scan_port os_select_fails ''127.0.0.1'' 80 1 1)) = [3] \<and>
   closed (fst (scan_port os_select_fails ''127.0.0.1'' 80 1 1)) = [3]"
  using scan_port_closes_socket [of os_select_fails "''127.0.0.1''" 80 1 1]
  by (simp add: os_select_fails_def)

section \<open>Properties of the setup\<close>

text \<open>
  C6: an invalid port range (start above end, start below 1, or end above 65535) ends
  the program with the status \<open>EXIT_FAILURE\<close>, which is not zero, whatever the schedule;
  the only event is the message on stderr, so no socket was opened and no thread created.
\<close>

theorem invalid_range_exits:
  "start_port cfg > end_port cfg \<or> start_port cfg < 1 \<or> end_port cfg > 65535 \<Longrightarrow>
   run env cfg sched = Inl ([Fprintf_stderr ''Invalid port range\<newline>''], EXIT_FAILURE) \<and>
   EXIT_FAILURE \<noteq> 0"
  by (simp add: run_def main_setup_def EXIT_FAILURE_def)

theorem invalid_range_exits_witness:
  "start_port cfg_reversed > end_port cfg_reversed \<and>
   run env_ok cfg_reversed [Main, Main, Thread 0] =
     Inl ([Fprintf_stderr ''Invalid port range\<newline>''], EXIT_FAILURE) \<and>
   EXIT_FAILURE \<noteq> 0"
  using invalid_range_exits [of cfg_reversed env_ok "[Main, Main, Thread 0]"]
  by (simp add: cfg_reversed_def)

lemma unsigned_above_sem_value_max:
  assumes "c_int c"
  shows "c mod 2 ^ 32 > SEM_VALUE_MAX \<longleftrightarrow> c < 0"
proof (cases "c < 0")
  case True
  have "c mod 4294967296 = (c + 4294967296) mod 4294967296"
    by simp
  also have "\<dots> = c + 4294967296"
    using assms True by (intro mod_pos_pos_trivial) (simp_all add: c_int_def)
  finally show ?thesis
    using assms True by (simp add: c_int_def SEM_VALUE_MAX_def)
next
  case False
  then have "c mod 4294967296 = c"
    using assms by (intro mod_pos_pos_trivial) (simp_all add: c_int_def)
  then show ?thesis
    using assms False by (simp add: c_int_def SEM_VALUE_MAX_def)
qed




section \<open>Invariants of a run\<close>

text \<open>
  A property that every step preserves holds after every schedule. The invariants below
  are proved in this way, each step being a step of \<open>main\<close> or of one worker.
\<close>

lemma exec_preserves:
  assumes step: "\<And>a s s'. P s \<Longrightarrow> step env cfg a s = Some s' \<Longrightarrow> P s'"
  shows "P s0 \<Longrightarrow> exec env cfg sched s0 = Some s \<Longrightarrow> P s"
proof (induction sched arbitrary: s0)
  case Nil
  then show ?case by simp
next
  case (Cons a sched)
  then obtain s1 where s1: "step env cfg a s0 = Some s1" and rest: "exec env cfg sched s1 = Some s"
    by (auto split: option.splits)
  from step [OF Cons.prems(1) s1] rest show ?case
    by (rule Cons.IH)
qed

lemma length_filter_update:
  "k < length xs \<Longrightarrow>
   length (filter P (xs[k := y])) + (if P (xs ! k) then 1 else 0) =
   length (filter P xs) + (if P y then 1 else 0)"
proof (induction xs arbitrary: k)
  case Nil
  then show ?case by simp
next
  case (Cons x xs)
  then show ?case by (cases k) auto
qed

lemma mset_filter_update:
  "k < length xs \<Longrightarrow>
   mset (map f (filter P (xs[k := y]))) + (if P (xs ! k) then {#f (xs ! k)#} else {#}) =
   mset (map f (filter P xs)) + (if P y then {#f y#} else {#})"
proof (induction xs arbitrary: k)
  case Nil
  then show ?case by simp
next
  case (Cons x xs)
  show ?case
  proof (cases k)
    case 0
    then show ?thesis by simp
  next
    case (Suc j)
    with Cons.prems have "j < length xs" by simp
    from Cons.IH [OF this] Suc show ?thesis by (auto simp: ac_simps)
  qed
qed

lemma map_fst_update:
  "k < length xs \<Longrightarrow> fst (xs ! k) = t \<Longrightarrow> map fst (xs[k := (t, w)]) = map fst xs"
  by (simp add: map_update list_update_same_conv)

lemma worker_step_cases:
  assumes "worker_step env k s = Some s'"
  obtains
    (scan) task where "k < length (threads s)" "threads s ! k = (task, W_scan)"
      "pc s' = pc s" "sem s' = sem s" "threads s' = (threads s)[k := (task, W_post)]"
      "trace s' = trace s @ fst (scan_port (probe_os env (task_port task)) (task_ip task)
          (task_port task) (task_timeout_sec task) (task_verbose task)) @
        [Scan_return (task_port task) (snd (scan_port (probe_os env (task_port task)) (task_ip task)
          (task_port task) (task_timeout_sec task) (task_verbose task)))]"
  | (post) task where "k < length (threads s)" "threads s ! k = (task, W_post)"
      "pc s' = pc s" "sem s' = sem s + 1" "threads s' = (threads s)[k := (task, W_done)]"
      "trace s' = trace s @ [Sem_release (task_port task)]"
proof -
  from assms have k: "k < length (threads s)"
    by (auto split: main_pc.splits if_splits)
  obtain task w where tw: "threads s ! k = (task, w)"
    by (cases "threads s ! k")
  show thesis
  proof (cases w)
    case W_scan
    with assms k tw show thesis
      by (intro scan [of task]) (auto split: main_pc.splits prod.splits)
  next
    case W_post
    with assms k tw show thesis
      by (intro post [of task]) (auto split: main_pc.splits)
  next
    case W_done
    with assms k tw show thesis
      by (auto split: main_pc.splits)
  qed
qed

lemma slot_inv_main_step:
  assumes "slot_inv cfg s" "main_step env cfg s = Some s'"
  shows "slot_inv cfg s'"
proof (cases "pc s")
  case (At_wait p)
  with assms show ?thesis
    by (auto simp: slot_inv_def in_flight_def split: if_splits)
next
  case (Holding p)
  with assms show ?thesis
    by (auto simp: slot_inv_def in_flight_def split: if_splits)
next
  case (Drain i)
  with assms show ?thesis
    by (auto simp: slot_inv_def in_flight_def split: if_splits)
next
  case (Returned r)
  with assms show ?thesis by simp
qed

lemma slot_inv_worker_step:
  assumes "slot_inv cfg s" "worker_step env k s = Some s'"
  shows "slot_inv cfg s'"
  using assms(2)
proof (cases rule: worker_step_cases)
  case (scan task)
  from length_filter_update [OF scan(1), of "\<lambda>tw. snd tw \<noteq> W_done" "(task, W_post)"] scan assms(1)
  show ?thesis by (simp add: slot_inv_def in_flight_def)
next
  case (post task)
  from length_filter_update [OF post(1), of "\<lambda>tw. snd tw \<noteq> W_done" "(task, W_done)"] post assms(1)
  show ?thesis by (simp add: slot_inv_def in_flight_def)
qed

lemma slot_inv_step:
  "slot_inv cfg s \<Longrightarrow> step env cfg a s = Some s' \<Longrightarrow> slot_inv cfg s'"
proof (cases a)
  case Main
  then show "slot_inv cfg s \<Longrightarrow> step env cfg a s = Some s' \<Longrightarrow> slot_inv cfg s'"
    using slot_inv_main_step [of cfg s env s'] by simp
next
  case (Thread k)
  then show "slot_inv cfg s \<Longrightarrow> step env cfg a s = Some s' \<Longrightarrow> slot_inv cfg s'"
    using slot_inv_worker_step [of cfg s env k s'] by simp
qed

lemma opened_append: "opened (xs @ ys) = opened xs @ opened ys"
  by (induction xs rule: opened.induct) simp_all

lemma closed_append: "closed (xs @ ys) = closed xs @ closed ys"
  by (induction xs rule: closed.induct) simp_all

lemma acquired_append: "acquired (xs @ ys) = acquired xs @ acquired ys"
  by (induction xs rule: acquired.induct) simp_all

lemma released_append: "released (xs @ ys) = released xs @ released ys"
  by (induction xs rule: released.induct) simp_all

lemma launched_append: "launched (xs @ ys) = launched xs @ launched ys"
  by (induction xs rule: launched.induct) simp_all

lemma probed_append: "probed (xs @ ys) = probed xs @ probed ys"
  by (induction xs rule: probed.induct) simp_all

lemmas reader_append =
  opened_append closed_append acquired_append released_append launched_append probed_append

lemma scan_port_events:
  "acquired (fst (scan_port os h p t v)) = []"
  "released (fst (scan_port os h p t v)) = []"
  "launched (fst (scan_port os h p t v)) = []"
  "probed (fst (scan_port os h p t v)) = []"
  "opened (fst (scan_port os h p t v)) = closed (fst (scan_port os h p t v))"
  by (simp_all add: scan_port_defs)

lemma scan_port_quiet: "filter is_output (fst (scan_port os h p t 0)) = []"
  by (simp add: scan_port_defs)

lemma dispatch_inv_main_step:
  assumes "slot_inv cfg s" "dispatch_inv env cfg s" "main_step env cfg s = Some s'"
  shows "dispatch_inv env cfg s'"
proof (cases "pc s")
  case (At_wait p)
  show ?thesis
  proof (cases "p \<le> end_port cfg")
    case True
    with At_wait assms show ?thesis
      by (auto simp: dispatch_inv_def reader_append split: if_splits)
  next
    case False
    with At_wait assms(1) have "p = end_port cfg + 1"
      by (simp add: slot_inv_def)
    with At_wait assms show ?thesis
      by (auto simp: dispatch_inv_def reader_append)
  qed
next
  case (Holding p)
  with assms(1) have "start_port cfg \<le> p"
    by (simp add: slot_inv_def)
  note snoc = upto_rec2 [OF this]
  from Holding assms show ?thesis
    by (auto simp: dispatch_inv_def reader_append snoc launch_ok_def split: if_splits)
next
  case (Drain i)
  with assms show ?thesis
    by (auto simp: dispatch_inv_def reader_append split: if_splits)
next
  case (Returned r)
  with assms show ?thesis by simp
qed

lemma dispatch_inv_worker_step:
  assumes "dispatch_inv env cfg s" "worker_step env k s = Some s'"
  shows "dispatch_inv env cfg s'"
  using assms(2)
proof (cases rule: worker_step_cases)
  case (scan task)
  from scan(1,2) have "map fst ((threads s)[k := (task, W_post)]) = map fst (threads s)"
    by (intro map_fst_update) simp_all
  with scan assms(1) show ?thesis
    by (simp add: dispatch_inv_def reader_append scan_port_events)
next
  case (post task)
  from post(1,2) have "map fst ((threads s)[k := (task, W_done)]) = map fst (threads s)"
    by (intro map_fst_update) simp_all
  with post assms(1) show ?thesis
    by (simp add: dispatch_inv_def reader_append)
qed

lemma dispatch_inv_step:
  assumes "slot_inv cfg s" "dispatch_inv env cfg s" "step env cfg a s = Some s'"
  shows "dispatch_inv env cfg s'"
proof (cases a)
  case Main
  with assms show ?thesis
    using dispatch_inv_main_step [of cfg s env s'] by simp
next
  case (Thread k)
  with assms show ?thesis
    using dispatch_inv_worker_step [of env cfg s k s'] by simp
qed

lemma thread_task:
  assumes "dispatch_inv env cfg s" "k < length (threads s)" "threads s ! k = (task, w)"
  shows "task = new_task cfg (task_port task)"
proof -
  define ps where "ps = filter (launch_ok env) [start_port cfg .. cur_port cfg (pc s) - 1]"
  from assms(1) have eq: "map fst (threads s) = map (new_task cfg) ps"
    by (simp add: dispatch_inv_def ps_def)
  then have len: "length ps = length (threads s)"
    by (metis length_map)
  from assms(2,3) have "task = map fst (threads s) ! k"
    by simp
  also have "\<dots> = new_task cfg (ps ! k)"
    using eq len assms(2) by simp
  finally show ?thesis
    by (simp add: new_task_def)
qed

lemma release_inv_main_step:
  assumes "slot_inv cfg s" "release_inv env cfg s" "main_step env cfg s = Some s'"
  shows "release_inv env cfg s'"
proof (cases "pc s")
  case (At_wait p)
  show ?thesis
  proof (cases "p \<le> end_port cfg")
    case True
    with At_wait assms show ?thesis
      by (auto simp: release_inv_def reader_append split: if_splits)
  next
    case False
    with At_wait assms(1) have "p = end_port cfg + 1"
      by (simp add: slot_inv_def)
    with At_wait assms show ?thesis
      by (auto simp: release_inv_def reader_append)
  qed
next
  case (Holding p)
  with assms(1) have "start_port cfg \<le> p"
    by (simp add: slot_inv_def)
  note snoc = upto_rec2 [OF this]
  from Holding assms show ?thesis
    by (auto simp: release_inv_def reader_append snoc launch_ok_def ports_where_def
        split: if_splits)
next
  case (Drain i)
  with assms show ?thesis
    by (auto simp: release_inv_def reader_append split: if_splits)
next
  case (Returned r)
  with assms show ?thesis by simp
qed

lemma release_inv_worker_step:
  assumes "release_inv env cfg s" "worker_step env k s = Some s'"
  shows "release_inv env cfg s'"
  using assms(2)
proof (cases rule: worker_step_cases)
  case (scan task)
  from mset_filter_update [OF scan(1), of "\<lambda>tw. task_port (fst tw)" "\<lambda>tw. snd tw = W_done"
      "(task, W_post)"] scan(2)
  have dn: "mset (ports_where (\<lambda>w. w = W_done) ((threads s)[k := (task, W_post)])) =
      mset (ports_where (\<lambda>w. w = W_done) (threads s))"
    by (simp add: ports_where_def)
  from mset_filter_update [OF scan(1), of "\<lambda>tw. task_port (fst tw)" "\<lambda>tw. snd tw \<noteq> W_scan"
      "(task, W_post)"] scan(2)
  have pr: "mset (ports_where (\<lambda>w. w \<noteq> W_scan) ((threads s)[k := (task, W_post)])) =
      mset (ports_where (\<lambda>w. w \<noteq> W_scan) (threads s)) + {#task_port task#}"
    by (simp add: ports_where_def)
  from scan assms(1) dn pr show ?thesis
    by (simp add: release_inv_def reader_append scan_port_events)
next
  case (post task)
  from mset_filter_update [OF post(1), of "\<lambda>tw. task_port (fst tw)" "\<lambda>tw. snd tw = W_done"
      "(task, W_done)"] post(2)
  have dn: "mset (ports_where (\<lambda>w. w = W_done) ((threads s)[k := (task, W_done)])) =
      mset (ports_where (\<lambda>w. w = W_done) (threads s)) + {#task_port task#}"
    by (simp add: ports_where_def)
  from mset_filter_update [OF post(1), of "\<lambda>tw. task_port (fst tw)" "\<lambda>tw. snd tw \<noteq> W_scan"
      "(task, W_done)"] post(2)
  have pr: "mset (ports_where (\<lambda>w. w \<noteq> W_scan) ((threads s)[k := (task, W_done)])) =
      mset (ports_where (\<lambda>w. w \<noteq> W_scan) (threads s))"
    by (simp add: ports_where_def)
  from post assms(1) dn pr show ?thesis
    by (simp add: release_inv_def reader_append)
qed

lemma release_inv_step:
  assumes "slot_inv cfg s" "release_inv env cfg s" "step env cfg a s = Some s'"
  shows "release_inv env cfg s'"
proof (cases a)
  case Main
  with assms show ?thesis
    using release_inv_main_step [of cfg s env s'] by simp
next
  case (Thread k)
  with assms show ?thesis
    using release_inv_worker_step [of env cfg s k s'] by simp
qed

lemma quiet_inv_main_step:
  assumes "slot_inv cfg s" "quiet_inv env cfg s" "main_step env cfg s = Some s'"
  shows "quiet_inv env cfg s'"
proof (cases "pc s")
  case (At_wait p)
  show ?thesis
  proof (cases "p \<le> end_port cfg")
    case True
    with At_wait assms show ?thesis
      by (auto simp: quiet_inv_def split: if_splits)
  next
    case False
    with At_wait assms(1) have "p = end_port cfg + 1"
      by (simp add: slot_inv_def)
    with At_wait assms show ?thesis
      by (auto simp: quiet_inv_def)
  qed
next
  case (Holding p)
  with assms(1) have "start_port cfg \<le> p"
    by (simp add: slot_inv_def)
  note snoc = upto_rec2 [OF this]
  from Holding assms show ?thesis
    by (auto simp: quiet_inv_def snoc launch_ok_def launch_diagnostic_def split: if_splits)
next
  case (Drain i)
  with assms show ?thesis
    by (auto simp: quiet_inv_def split: if_splits)
next
  case (Returned r)
  with assms show ?thesis by simp
qed

lemma quiet_inv_worker_step:
  assumes "verbose cfg = 0" "dispatch_inv env cfg s" "quiet_inv env cfg s"
    "worker_step env k s = Some s'"
  shows "quiet_inv env cfg s'"
  using assms(4)
proof (cases rule: worker_step_cases)
  case (scan task)
  from thread_task [OF assms(2) scan(1,2)] assms(1) have "task_verbose task = 0"
    by (metis new_task_def scan_task.select_convs(4))
  with scan assms(3) show ?thesis
    by (simp add: quiet_inv_def scan_port_quiet)
next
  case (post task)
  with assms(3) show ?thesis
    by (simp add: quiet_inv_def)
qed

subsection \<open>The invariants hold in every reachable state\<close>

lemma setup_state:
  assumes "c_int (concurrency cfg)" "main_setup env cfg = Inr s0"
  shows "s0 = \<lparr>sem = concurrency cfg, pc = At_wait (start_port cfg), threads = [], trace = []\<rparr>"
    and "0 \<le> concurrency cfg" and "1 \<le> start_port cfg" and "start_port cfg \<le> end_port cfg"
    and "end_port cfg \<le> 65535"
proof -
  from assms(2) have range: "1 \<le> start_port cfg \<and> start_port cfg \<le> end_port cfg \<and> end_port cfg \<le> 65535"
    and sem: "sem_open (sem_open_ok env) (concurrency cfg mod 2 ^ 32) = Some (sem s0)"
    and s0: "s0 = \<lparr>sem = sem s0, pc = At_wait (start_port cfg), threads = [], trace = []\<rparr>"
    by (auto simp: main_setup_def split: if_splits option.splits)
  from sem have "\<not> concurrency cfg mod 2 ^ 32 > SEM_VALUE_MAX"
    and v: "sem s0 = concurrency cfg mod 2 ^ 32"
    by (auto simp: sem_open_def split: if_splits)
  with unsigned_above_sem_value_max [OF assms(1)] have nonneg: "0 \<le> concurrency cfg"
    by simp
  with assms(1) have "concurrency cfg mod 4294967296 = concurrency cfg"
    by (intro mod_pos_pos_trivial) (simp_all add: c_int_def)
  with v s0 show "s0 = \<lparr>sem = concurrency cfg, pc = At_wait (start_port cfg), threads = [], trace = []\<rparr>"
    by simp
  from nonneg range show "0 \<le> concurrency cfg" "1 \<le> start_port cfg"
    "start_port cfg \<le> end_port cfg" "end_port cfg \<le> 65535"
    by simp_all
qed

lemma run_inv_step:
  assumes "run_inv env cfg s" "step env cfg a s = Some s'"
  shows "run_inv env cfg s'"
proof -
  from assms have slot: "slot_inv cfg s'"
    by (auto simp: run_inv_def intro: slot_inv_step)
  from assms have disp: "dispatch_inv env cfg s'"
    by (auto simp: run_inv_def intro: dispatch_inv_step)
  from assms have rel: "release_inv env cfg s'"
    by (auto simp: run_inv_def intro: release_inv_step)
  have "quiet_inv env cfg s'" if v: "verbose cfg = 0"
  proof (cases a)
    case Main
    with assms v show ?thesis
      using quiet_inv_main_step [of cfg s env s'] by (simp add: run_inv_def)
  next
    case (Thread k)
    with assms v show ?thesis
      using quiet_inv_worker_step [of cfg env s k s'] by (simp add: run_inv_def)
  qed
  with slot disp rel show ?thesis
    by (simp add: run_inv_def)
qed

lemma run_inv_exec:
  "run_inv env cfg s0 \<Longrightarrow> exec env cfg sched s0 = Some s \<Longrightarrow> run_inv env cfg s"
  by (rule exec_preserves [where P = "run_inv env cfg"]) (rule run_inv_step)

lemma run_inv_setup:
  assumes "c_int (concurrency cfg)" "main_setup env cfg = Inr s0"
  shows "run_inv env cfg s0"
  using setup_state [OF assms]
  by (simp add: run_inv_def slot_inv_def dispatch_inv_def release_inv_def quiet_inv_def
      in_flight_def ports_where_def)

lemma run_inv_reachable:
  assumes "c_int (concurrency cfg)" "main_setup env cfg = Inr s0" "exec env cfg sched s0 = Some s"
  shows "run_inv env cfg s"
  using run_inv_setup [OF assms(1,2)] assms(3) by (rule run_inv_exec)

subsection \<open>Consequences of the invariants\<close>

lemma ports_where_subset:
  "mset (ports_where P ts) \<subseteq># mset (map (\<lambda>tw. task_port (fst tw)) ts)"
  unfolding ports_where_def mset_map mset_filter
  by (intro image_mset_subseteq_mono multiset_filter_subset)

lemma thread_ports:
  assumes "dispatch_inv env cfg s"
  shows "map (\<lambda>tw. task_port (fst tw)) (threads s) = launched (trace s)"
proof -
  have "map (\<lambda>tw. task_port (fst tw)) (threads s) = map task_port (map fst (threads s))"
    by simp
  also from assms have "\<dots> = map task_port (map (new_task cfg) (launched (trace s)))"
    by (simp add: dispatch_inv_def)
  also have "\<dots> = launched (trace s)"
    by (simp add: new_task_def comp_def)
  finally show ?thesis .
qed

lemma all_done_at_return:
  assumes "slot_inv cfg s" "pc s = Returned r"
  shows "in_flight s = []" and "sem s = 0" and "r = 0"
proof -
  from assms have nonneg: "0 \<le> sem s" and r: "r = 0"
    and sum: "sem s + int (length (in_flight s)) + concurrency cfg = concurrency cfg"
    by (simp_all add: slot_inv_def)
  from nonneg sum have "int (length (in_flight s)) = 0" and "sem s = 0"
    by arith+
  with r show "in_flight s = []" and "sem s = 0" and "r = 0"
    by simp_all
qed

lemma ports_where_all:
  assumes "in_flight s = []"
  shows "ports_where (\<lambda>w. w = W_done) (threads s) = map (\<lambda>tw. task_port (fst tw)) (threads s)"
    and "ports_where (\<lambda>w. w \<noteq> W_scan) (threads s) = map (\<lambda>tw. task_port (fst tw)) (threads s)"
proof -
  from assms have dn: "\<forall>tw \<in> set (threads s). snd tw = W_done"
    by (simp add: in_flight_def filter_empty_conv)
  then have "filter (\<lambda>tw. snd tw = W_done) (threads s) = threads s"
    by (simp add: filter_id_conv)
  then show "ports_where (\<lambda>w. w = W_done) (threads s) = map (\<lambda>tw. task_port (fst tw)) (threads s)"
    by (simp add: ports_where_def)
  from dn have "filter (\<lambda>tw. snd tw \<noteq> W_scan) (threads s) = threads s"
    by (simp add: filter_id_conv)
  then show "ports_where (\<lambda>w. w \<noteq> W_scan) (threads s) = map (\<lambda>tw. task_port (fst tw)) (threads s)"
    by (simp add: ports_where_def)
qed

lemma probed_subset_launched:
  assumes "run_inv env cfg s"
  shows "mset (probed (trace s)) \<subseteq># mset (launched (trace s))"
proof -
  from assms have d: "dispatch_inv env cfg s"
    by (simp add: run_inv_def)
  from assms have "mset (probed (trace s)) = mset (ports_where (\<lambda>w. w \<noteq> W_scan) (threads s))"
    by (simp add: run_inv_def release_inv_def)
  also have "\<dots> \<subseteq># mset (map (\<lambda>tw. task_port (fst tw)) (threads s))"
    by (rule ports_where_subset)
  also have "\<dots> = mset (launched (trace s))"
    by (simp only: thread_ports [OF d])
  finally show ?thesis .
qed

lemma launched_subset_acquired:
  assumes "run_inv env cfg s"
  shows "mset (launched (trace s)) \<subseteq># mset (acquired (trace s))"
proof -
  from assms have l: "launched (trace s) = filter (launch_ok env) [start_port cfg .. cur_port cfg (pc s) - 1]"
    and a: "acquired (trace s) = [start_port cfg .. cur_port cfg (pc s) - 1] @ holding (pc s)"
    by (simp_all add: run_inv_def dispatch_inv_def)
  have "mset (filter (launch_ok env) [start_port cfg .. cur_port cfg (pc s) - 1]) \<subseteq>#
      mset [start_port cfg .. cur_port cfg (pc s) - 1]"
    unfolding mset_filter by (rule multiset_filter_subset)
  with l a show ?thesis
    by (simp add: subset_mset.add_increasing2)
qed

lemma released_subset_acquired:
  assumes "run_inv env cfg s"
  shows "mset (released (trace s)) \<subseteq># mset (acquired (trace s))"
proof -
  let ?ps = "[start_port cfg .. cur_port cfg (pc s) - 1]"
  from assms have r: "mset (released (trace s)) =
      mset (filter (\<lambda>p. \<not> launch_ok env p) ?ps) + mset (ports_where (\<lambda>w. w = W_done) (threads s))"
    and l: "launched (trace s) = filter (launch_ok env) ?ps"
    and a: "acquired (trace s) = ?ps @ holding (pc s)"
    and d: "dispatch_inv env cfg s"
    by (simp_all add: run_inv_def dispatch_inv_def release_inv_def)
  have "mset (ports_where (\<lambda>w. w = W_done) (threads s)) \<subseteq># mset (filter (launch_ok env) ?ps)"
    using ports_where_subset [of "\<lambda>w. w = W_done" "threads s"] thread_ports [OF d] l by simp
  then have "mset (released (trace s)) \<subseteq>#
      mset (filter (\<lambda>p. \<not> launch_ok env p) ?ps) + mset (filter (launch_ok env) ?ps)"
    unfolding r by (rule subset_mset.add_left_mono)
  also have "\<dots> = mset ?ps"
    by (simp add: union_commute)
  also have "\<dots> \<subseteq># mset (acquired (trace s))"
    by (simp add: a)
  finally show ?thesis .
qed

lemma distinct_acquired:
  assumes "run_inv env cfg s"
  shows "distinct (acquired (trace s))"
proof -
  from assms have a: "acquired (trace s) = [start_port cfg .. cur_port cfg (pc s) - 1] @ holding (pc s)"
    by (simp add: run_inv_def dispatch_inv_def)
  show ?thesis
    unfolding a by (cases "pc s") simp_all
qed

lemma distinct_of_subset:
  assumes "mset xs \<subseteq># mset ys" "distinct ys"
  shows "distinct xs"
proof -
  have "count (mset xs) a = (if a \<in> set xs then 1 else 0)" for a
  proof (cases "a \<in> set xs")
    case True
    then have "1 \<le> count (mset xs) a"
      by (simp add: Suc_le_eq)
    moreover have "count (mset xs) a \<le> count (mset ys) a"
      using assms(1) by (rule mset_subset_eq_count)
    moreover have "count (mset ys) a \<le> 1"
      using assms(2) by (simp add: distinct_count_atmost_1)
    ultimately have "count (mset xs) a = 1"
      by linarith
    with True show ?thesis
      by simp
  next
    case False
    then show ?thesis
      by (simp add: count_mset_0_iff)
  qed
  then show ?thesis
    by (simp only: distinct_count_atmost_1) simp
qed

lemma final_state:
  assumes "run_inv env cfg s" "pc s = Returned r"
  shows "in_flight s = []"
    and "acquired (trace s) = [start_port cfg .. end_port cfg]"
    and "launched (trace s) = filter (launch_ok env) [start_port cfg .. end_port cfg]"
    and "mset (probed (trace s)) = mset (filter (launch_ok env) [start_port cfg .. end_port cfg])"
    and "mset (released (trace s)) = mset [start_port cfg .. end_port cfg]"
proof -
  from assms have slot: "slot_inv cfg s" and d: "dispatch_inv env cfg s"
    and rel: "release_inv env cfg s"
    by (simp_all add: run_inv_def)
  from all_done_at_return [OF slot assms(2)] show idle: "in_flight s = []"
    by simp
  from d assms(2) show a: "acquired (trace s) = [start_port cfg .. end_port cfg]"
    and l: "launched (trace s) = filter (launch_ok env) [start_port cfg .. end_port cfg]"
    by (simp_all add: dispatch_inv_def)
  from rel ports_where_all(2) [OF idle] thread_ports [OF d] l
  show "mset (probed (trace s)) = mset (filter (launch_ok env) [start_port cfg .. end_port cfg])"
    by (simp add: release_inv_def)
  from rel ports_where_all(1) [OF idle] thread_ports [OF d] l assms(2)
  show "mset (released (trace s)) = mset [start_port cfg .. end_port cfg]"
    by (simp add: release_inv_def union_commute)
qed

subsection \<open>Every run ends\<close>

text \<open>
  Every step lowers \<open>work\<close>, so a schedule cannot be longer than the work of the state
  it starts from. With at least one slot, some thread can move in every state where
  \<open>main\<close> has not returned. So every run can be continued to the return of \<open>main\<close>,
  and no run goes on forever.
\<close>

lemma sum_list_update_work:
  "k < length xs \<Longrightarrow>
   sum_list (map f (xs[k := y])) + f (xs ! k) = sum_list (map f xs) + f y" for f :: "'a \<Rightarrow> nat"
proof (induction xs arbitrary: k)
  case Nil
  then show ?case by simp
next
  case (Cons x xs)
  show ?case
  proof (cases k)
    case 0
    then show ?thesis by simp
  next
    case (Suc j)
    with Cons.prems have "j < length xs" by simp
    from Cons.IH [OF this] Suc show ?thesis by simp
  qed
qed

lemma work_main_step:
  assumes "slot_inv cfg s" "main_step env cfg s = Some s'"
  shows "work cfg s' < work cfg s"
proof (cases "pc s")
  case (At_wait p)
  with assms show ?thesis
    by (auto simp: work_def slot_inv_def split: if_splits)
next
  case (Holding p)
  with assms(1) have "p \<le> end_port cfg"
    by (simp add: slot_inv_def)
  then have "nat (end_port cfg + 1 - p) = Suc (nat (end_port cfg - p))"
    by simp
  with Holding assms show ?thesis
    by (auto simp: work_def split: if_splits)
next
  case (Drain i)
  with assms show ?thesis
    by (auto simp: work_def slot_inv_def split: if_splits)
next
  case (Returned r)
  with assms show ?thesis by simp
qed

lemma work_worker_step:
  assumes "worker_step env k s = Some s'"
  shows "work cfg s' < work cfg s"
  using assms
proof (cases rule: worker_step_cases)
  case (scan task)
  from sum_list_update_work [OF scan(1), of "\<lambda>tw. worker_work (snd tw)" "(task, W_post)"] scan
  show ?thesis by (simp add: work_def)
next
  case (post task)
  from sum_list_update_work [OF post(1), of "\<lambda>tw. worker_work (snd tw)" "(task, W_done)"] post
  show ?thesis by (simp add: work_def)
qed

lemma work_step:
  assumes "run_inv env cfg s" "step env cfg a s = Some s'"
  shows "work cfg s' < work cfg s"
proof (cases a)
  case Main
  with assms show ?thesis
    using work_main_step [of cfg s env s'] by (simp add: run_inv_def)
next
  case (Thread k)
  with assms show ?thesis
    using work_worker_step [of env k s s' cfg] by simp
qed

lemma exec_bounded:
  "run_inv env cfg s \<Longrightarrow> exec env cfg sched s = Some s' \<Longrightarrow>
   length sched + work cfg s' \<le> work cfg s"
proof (induction sched arbitrary: s)
  case Nil
  then show ?case by simp
next
  case (Cons a sched)
  then obtain s1 where s1: "step env cfg a s = Some s1" and rest: "exec env cfg sched s1 = Some s'"
    by (auto split: option.splits)
  from Cons.prems(1) s1 have "run_inv env cfg s1"
    by (rule run_inv_step)
  from Cons.IH [OF this rest] work_step [OF Cons.prems(1) s1] show ?case
    by simp
qed

lemma worker_can_move:
  assumes "in_flight s \<noteq> []" "\<And>r. pc s \<noteq> Returned r"
  shows "\<exists>k s'. worker_step env k s = Some s'"
proof -
  from assms(1) obtain tw where "tw \<in> set (threads s)" and live: "snd tw \<noteq> W_done"
    by (auto simp: in_flight_def filter_empty_conv)
  then obtain k where k: "k < length (threads s)" "threads s ! k = tw"
    by (auto simp: in_set_conv_nth)
  obtain task w where tw: "tw = (task, w)"
    by (cases tw)
  with live have "w = W_scan \<or> w = W_post"
    by (cases w) simp_all
  with k tw assms(2) have "worker_step env k s \<noteq> None"
    by (cases "pc s") (auto split: prod.splits)
  then show ?thesis
    by blast
qed

lemma progress:
  assumes "slot_inv cfg s" "1 \<le> concurrency cfg" "\<And>r. pc s \<noteq> Returned r"
  shows "\<exists>a s'. step env cfg a s = Some s'"
proof (cases "in_flight s = []")
  case False
  from worker_can_move [OF False assms(3)] obtain k s' where "worker_step env k s = Some s'"
    by blast
  then have "step env cfg (Thread k) s = Some s'"
    by simp
  then show ?thesis by blast
next
  case True
  with assms(1) have sum: "sem s + main_held cfg (pc s) = concurrency cfg"
    and ok: "pc_ok cfg (pc s)"
    by (simp_all add: slot_inv_def)
  have "main_step env cfg s \<noteq> None"
  proof (cases "pc s")
    case (At_wait p)
    with sum assms(2) show ?thesis by auto
  next
    case (Holding p)
    then show ?thesis by auto
  next
    case (Drain i)
    with sum show ?thesis by auto
  next
    case (Returned r)
    with assms(3) [of r] show ?thesis by simp
  qed
  then obtain s' where "step env cfg Main s = Some s'"
    by auto
  then show ?thesis by blast
qed

lemma can_complete:
  assumes "1 \<le> concurrency cfg"
  shows "run_inv env cfg s \<Longrightarrow> \<exists>sched s'. exec env cfg sched s = Some s' \<and> pc s' = Returned 0"
proof (induction "work cfg s" arbitrary: s rule: less_induct)
  case less
  show ?case
  proof (cases "\<exists>r. pc s = Returned r")
    case True
    with less.prems have "pc s = Returned 0"
      by (auto simp: run_inv_def slot_inv_def)
    then have "exec env cfg [] s = Some s \<and> pc s = Returned 0"
      by simp
    then show ?thesis by blast
  next
    case False
    from less.prems have "slot_inv cfg s"
      by (simp add: run_inv_def)
    from progress [OF this assms] False obtain a s1 where s1: "step env cfg a s = Some s1"
      by blast
    from less.prems s1 have inv1: "run_inv env cfg s1"
      by (rule run_inv_step)
    from less.hyps [OF work_step [OF less.prems s1] inv1]
    obtain sched s' where "exec env cfg sched s1 = Some s'" "pc s' = Returned 0"
      by blast
    with s1 have "exec env cfg (a # sched) s = Some s' \<and> pc s' = Returned 0"
      by simp
    then show ?thesis by blast
  qed
qed

section \<open>Properties of a run\<close>

subsection \<open>The example runs\<close>

lemmas example_defs =
  env_ok_def env_malloc_fails_def cfg_two_ports_def init_two_ports_def task_one_def task_two_def
  sched_to_holding_def state_holding_def sched_failing_def state_failing_def sched_complete_def
  state_complete_def cfg_two_slots_def init_two_slots_def state_ahead_def os_refused_def
  sched_to_posting_def state_posting_def

lemmas eval_defs =
  main_setup_def sem_open_def SEM_VALUE_MAX_def new_task_def scan_port_defs EINPROGRESS_def

lemma example_setup:
  "main_setup env_malloc_fails cfg_two_ports = Inr init_two_ports"
  "main_setup env_ok cfg_two_ports = Inr init_two_ports"
  "main_setup env_ok cfg_two_slots = Inr init_two_slots"
  "c_int (concurrency cfg_two_ports)"
  "c_int (concurrency cfg_two_slots)"
  by (simp_all add: example_defs eval_defs c_int_def)

lemma example_exec:
  "exec env_malloc_fails cfg_two_ports sched_to_holding init_two_ports = Some state_holding"
  "exec env_malloc_fails cfg_two_ports sched_failing init_two_ports = Some state_failing"
  "exec env_ok cfg_two_ports sched_complete init_two_ports = Some state_complete"
  "exec env_ok cfg_two_slots [Main, Main, Main] init_two_slots = Some state_ahead"
  "exec env_malloc_fails cfg_two_ports sched_to_posting init_two_ports = Some state_posting"
  by (simp_all add: example_defs eval_defs)

subsection \<open>Slots\<close>

lemma slots_in_use_bounds:
  assumes "slot_inv cfg s"
  shows "slots_in_use cfg s = int (length (in_flight s)) + main_held cfg (pc s)"
    and "0 \<le> slots_in_use cfg s" and "slots_in_use cfg s \<le> concurrency cfg"
proof -
  from assms have sum: "sem s + int (length (in_flight s)) + main_held cfg (pc s) = concurrency cfg"
    and nonneg: "0 \<le> sem s" and ok: "pc_ok cfg (pc s)" and c: "0 \<le> concurrency cfg"
    by (simp_all add: slot_inv_def)
  from sum show eq: "slots_in_use cfg s = int (length (in_flight s)) + main_held cfg (pc s)"
    by (simp add: slots_in_use_def)
  from nonneg show "slots_in_use cfg s \<le> concurrency cfg"
    by (simp add: slots_in_use_def)
  from ok c have "0 \<le> main_held cfg (pc s)"
    by (cases "pc s") auto
  with eq show "0 \<le> slots_in_use cfg s"
    by simp
qed

text \<open>The steps that give a slot back.\<close>

lemma live_thread_not_returned:
  assumes "slot_inv cfg s" "k < length (threads s)" "threads s ! k = (task, w)" "w \<noteq> W_done"
  shows "pc s \<noteq> Returned r"
proof
  assume "pc s = Returned r"
  from all_done_at_return(1) [OF assms(1) this]
  have "\<forall>tw \<in> set (threads s). snd tw = W_done"
    by (simp add: in_flight_def filter_empty_conv)
  moreover from assms(2) have "threads s ! k \<in> set (threads s)"
    by simp
  ultimately show False
    using assms(3,4) by auto
qed

lemma worker_releases:
  assumes "slot_inv cfg s" "k < length (threads s)"
  shows "threads s ! k = (task, W_scan) \<longrightarrow>
      (\<exists>s'. worker_step env k s = Some s' \<and> sem s' = sem s \<and>
         threads s' = (threads s)[k := (task, W_post)] \<and>
         released (trace s') = released (trace s))"
    and "threads s ! k = (task, W_post) \<longrightarrow>
      (\<exists>s'. worker_step env k s = Some s' \<and> sem s' = sem s + 1 \<and>
         threads s' = (threads s)[k := (task, W_done)] \<and>
         released (trace s') = released (trace s) @ [task_port task])"
proof -
  show "threads s ! k = (task, W_scan) \<longrightarrow>
      (\<exists>s'. worker_step env k s = Some s' \<and> sem s' = sem s \<and>
         threads s' = (threads s)[k := (task, W_post)] \<and>
         released (trace s') = released (trace s))"
  proof
    assume tw: "threads s ! k = (task, W_scan)"
    from live_thread_not_returned [OF assms tw] have "\<And>r. pc s \<noteq> Returned r"
      by simp
    with assms(2) tw show "\<exists>s'. worker_step env k s = Some s' \<and> sem s' = sem s \<and>
         threads s' = (threads s)[k := (task, W_post)] \<and>
         released (trace s') = released (trace s)"
      by (cases "pc s")
        (auto simp: reader_append scan_port_events split_beta)
  qed
  show "threads s ! k = (task, W_post) \<longrightarrow>
      (\<exists>s'. worker_step env k s = Some s' \<and> sem s' = sem s + 1 \<and>
         threads s' = (threads s)[k := (task, W_done)] \<and>
         released (trace s') = released (trace s) @ [task_port task])"
  proof
    assume tw: "threads s ! k = (task, W_post)"
    from live_thread_not_returned [OF assms tw] have "\<And>r. pc s \<noteq> Returned r"
      by simp
    with assms(2) tw show "\<exists>s'. worker_step env k s = Some s' \<and> sem s' = sem s + 1 \<and>
         threads s' = (threads s)[k := (task, W_done)] \<and>
         released (trace s') = released (trace s) @ [task_port task]"
      by (cases "pc s") (auto simp: reader_append)
  qed
qed

lemma main_releases:
  assumes "pc s = Holding p" "\<not> launch_ok env p"
  shows "\<exists>s'. main_step env cfg s = Some s' \<and> sem s' = sem s + 1 \<and>
     threads s' = threads s \<and> acquired (trace s') = acquired (trace s) \<and>
     released (trace s') = released (trace s) @ [p]"
  using assms by (auto simp: launch_ok_def reader_append)

text \<open>
  C1: in every state that a run can reach, the dispatch loop has taken one slot for each
  port it has been through, in the order of the ports, and one for the port of the
  current iteration when \<open>main\<close> is between its \<open>sem_wait\<close> and the launch. The
  slots given back are those of the ports whose \<open>malloc\<close> or \<open>pthread_create\<close>
  failed and those of the workers that have executed their \<open>sem_post\<close>; no port is
  released twice, and none without having been acquired. A probe has returned only for a
  port whose thread was created, and a thread was created only for a port whose slot was
  acquired. The number of slots in use is the number of probes in flight plus the slots
  \<open>main\<close> holds; it is never negative and never above the concurrency limit.

  Every slot that is held is given back. When \<open>main\<close> holds the slot of a port whose
  launch fails, its step posts the semaphore for that port. A worker before its probe
  can move, and goes to its \<open>sem_post\<close>; a worker before its \<open>sem_post\<close> can move,
  and posts the semaphore for its port. With at least one slot every run can be
  continued to the return of \<open>main\<close>, and when \<open>main\<close> has returned every port of
  the range has been acquired once and released once, whatever the outcome of its
  launch and of its probe, and the permits that are left are those of the drain loop.
\<close>

theorem slot_accounting:
  assumes "c_int (concurrency cfg)" "main_setup env cfg = Inr s0"
    "exec env cfg sched s0 = Some s"
  shows "acquired (trace s) = [start_port cfg .. cur_port cfg (pc s) - 1] @ holding (pc s) \<and>
    mset (released (trace s)) =
      mset (filter (\<lambda>p. \<not> launch_ok env p) [start_port cfg .. cur_port cfg (pc s) - 1]) +
      mset (ports_where (\<lambda>w. w = W_done) (threads s)) \<and>
    distinct (acquired (trace s)) \<and> distinct (released (trace s)) \<and>
    mset (released (trace s)) \<subseteq># mset (acquired (trace s)) \<and>
    mset (probed (trace s)) \<subseteq># mset (launched (trace s)) \<and>
    mset (launched (trace s)) \<subseteq># mset (acquired (trace s)) \<and>
    slots_in_use cfg s = int (length (in_flight s)) + main_held cfg (pc s) \<and>
    0 \<le> slots_in_use cfg s \<and> slots_in_use cfg s \<le> concurrency cfg \<and>
    (pc s = Holding p \<and> \<not> launch_ok env p \<longrightarrow>
       (\<exists>s'. main_step env cfg s = Some s' \<and> sem s' = sem s + 1 \<and>
          threads s' = threads s \<and> acquired (trace s') = acquired (trace s) \<and>
          released (trace s') = released (trace s) @ [p])) \<and>
    (k < length (threads s) \<and> threads s ! k = (task, W_scan) \<longrightarrow>
       (\<exists>s'. worker_step env k s = Some s' \<and> sem s' = sem s \<and>
          threads s' = (threads s)[k := (task, W_post)] \<and>
          released (trace s') = released (trace s))) \<and>
    (k < length (threads s) \<and> threads s ! k = (task, W_post) \<longrightarrow>
       (\<exists>s'. worker_step env k s = Some s' \<and> sem s' = sem s + 1 \<and>
          threads s' = (threads s)[k := (task, W_done)] \<and>
          released (trace s') = released (trace s) @ [task_port task])) \<and>
    (1 \<le> concurrency cfg \<longrightarrow>
       (\<exists>sched' s'. exec env cfg sched' s = Some s' \<and> pc s' = Returned 0)) \<and>
    (pc s = Returned r \<longrightarrow>
       acquired (trace s) = [start_port cfg .. end_port cfg] \<and>
       mset (released (trace s)) = mset [start_port cfg .. end_port cfg] \<and>
       sem s = 0 \<and> in_flight s = [])"
proof -
  have inv: "run_inv env cfg s"
    using assms by (rule run_inv_reachable)
  then have slot: "slot_inv cfg s" and d: "dispatch_inv env cfg s" and r: "release_inv env cfg s"
    by (simp_all add: run_inv_def)
  note sub = released_subset_acquired [OF inv]
  note dist = distinct_acquired [OF inv]
  from d r sub dist distinct_of_subset [OF sub dist] probed_subset_launched [OF inv]
    launched_subset_acquired [OF inv] slots_in_use_bounds [OF slot]
  have safety: "acquired (trace s) = [start_port cfg .. cur_port cfg (pc s) - 1] @ holding (pc s) \<and>
    mset (released (trace s)) =
      mset (filter (\<lambda>p. \<not> launch_ok env p) [start_port cfg .. cur_port cfg (pc s) - 1]) +
      mset (ports_where (\<lambda>w. w = W_done) (threads s)) \<and>
    distinct (acquired (trace s)) \<and> distinct (released (trace s)) \<and>
    mset (released (trace s)) \<subseteq># mset (acquired (trace s)) \<and>
    mset (probed (trace s)) \<subseteq># mset (launched (trace s)) \<and>
    mset (launched (trace s)) \<subseteq># mset (acquired (trace s)) \<and>
    slots_in_use cfg s = int (length (in_flight s)) + main_held cfg (pc s) \<and>
    0 \<le> slots_in_use cfg s \<and> slots_in_use cfg s \<le> concurrency cfg"
    by (simp add: dispatch_inv_def release_inv_def)
  have by_main: "pc s = Holding p \<and> \<not> launch_ok env p \<longrightarrow>
       (\<exists>s'. main_step env cfg s = Some s' \<and> sem s' = sem s + 1 \<and>
          threads s' = threads s \<and> acquired (trace s') = acquired (trace s) \<and>
          released (trace s') = released (trace s) @ [p])"
    using main_releases [of s p env cfg] by blast
  have by_worker: "(k < length (threads s) \<and> threads s ! k = (task, W_scan) \<longrightarrow>
       (\<exists>s'. worker_step env k s = Some s' \<and> sem s' = sem s \<and>
          threads s' = (threads s)[k := (task, W_post)] \<and>
          released (trace s') = released (trace s))) \<and>
    (k < length (threads s) \<and> threads s ! k = (task, W_post) \<longrightarrow>
       (\<exists>s'. worker_step env k s = Some s' \<and> sem s' = sem s + 1 \<and>
          threads s' = (threads s)[k := (task, W_done)] \<and>
          released (trace s') = released (trace s) @ [task_port task]))"
    using worker_releases [OF slot, of k task env] by blast
  have completes: "1 \<le> concurrency cfg \<longrightarrow>
      (\<exists>sched' s'. exec env cfg sched' s = Some s' \<and> pc s' = Returned 0)"
    using can_complete [OF _ inv] by blast
  have final: "pc s = Returned r \<longrightarrow>
       acquired (trace s) = [start_port cfg .. end_port cfg] \<and>
       mset (released (trace s)) = mset [start_port cfg .. end_port cfg] \<and>
       sem s = 0 \<and> in_flight s = []"
    using final_state(1,2,5) [OF inv] all_done_at_return(2) [OF slot] by blast
  from safety by_main by_worker completes final show ?thesis
    by blast
qed

text \<open>
  The run where \<open>malloc\<close> fails for port 2: before the \<open>sem_post\<close> of the worker of
  port 1, when \<open>main\<close> holds the slot of port 2, and at the return of \<open>main\<close>.
\<close>

theorem slot_accounting_witness:
  "c_int (concurrency cfg_two_ports) \<and>
   main_setup env_malloc_fails cfg_two_ports = Inr init_two_ports \<and>
   exec env_malloc_fails cfg_two_ports sched_to_posting init_two_ports =
     Some state_posting \<and>
   threads state_posting ! 0 = (task_one, W_post) \<and>
   (\<exists>s'. worker_step env_malloc_fails 0 state_posting = Some s' \<and>
      sem s' = sem state_posting + 1 \<and>
      threads s' = (threads state_posting)[0 := (task_one, W_done)] \<and>
      released (trace s') = released (trace state_posting) @ [task_port task_one]) \<and>
   exec env_malloc_fails cfg_two_ports sched_to_holding init_two_ports = Some state_holding \<and>
   pc state_holding = Holding 2 \<and> \<not> launch_ok env_malloc_fails 2 \<and>
   (\<exists>s'. main_step env_malloc_fails cfg_two_ports state_holding = Some s' \<and>
      sem s' = sem state_holding + 1 \<and> threads s' = threads state_holding \<and>
      acquired (trace s') = acquired (trace state_holding) \<and>
      released (trace s') = released (trace state_holding) @ [2]) \<and>
   exec env_malloc_fails cfg_two_ports sched_failing init_two_ports = Some state_failing \<and>
   pc state_failing = Returned 0 \<and>
   acquired (trace state_failing) = [1, 2] \<and>
   mset (released (trace state_failing)) = {#1, 2#} \<and>
   mset (released (trace state_failing)) =
     mset [start_port cfg_two_ports .. end_port cfg_two_ports] \<and>
   distinct (released (trace state_failing)) \<and>
   mset (probed (trace state_failing)) \<subseteq># mset (launched (trace state_failing)) \<and>
   slots_in_use cfg_two_ports state_failing = 1 \<and>
   0 \<le> slots_in_use cfg_two_ports state_failing \<and>
   slots_in_use cfg_two_ports state_failing \<le> concurrency cfg_two_ports"
proof -
  note start = example_setup(4) example_setup(1)
  note posting = example_exec(5)
  note at_holding = example_exec(1)
  note at_return = example_exec(2)
  have post: "0 < length (threads state_posting) \<and> threads state_posting ! 0 = (task_one, W_post)"
    by (simp add: state_posting_def)
  have hold: "pc state_holding = Holding 2 \<and> \<not> launch_ok env_malloc_fails 2"
    by (simp add: state_holding_def env_malloc_fails_def launch_ok_def)
  have vals: "pc state_failing = Returned 0" "acquired (trace state_failing) = [1, 2]"
    "mset (released (trace state_failing)) = {#1, 2#}"
    "slots_in_use cfg_two_ports state_failing = 1"
    by (simp_all add: state_failing_def cfg_two_ports_def slots_in_use_def add_mset_commute)
  from slot_accounting [OF start posting, of 2 0 task_one 0] post
  have a: "\<exists>s'. worker_step env_malloc_fails 0 state_posting = Some s' \<and>
      sem s' = sem state_posting + 1 \<and>
      threads s' = (threads state_posting)[0 := (task_one, W_done)] \<and>
      released (trace s') = released (trace state_posting) @ [task_port task_one]"
    by blast
  from slot_accounting [OF start at_holding, of 2 0 task_one 0] hold
  have b: "\<exists>s'. main_step env_malloc_fails cfg_two_ports state_holding = Some s' \<and>
      sem s' = sem state_holding + 1 \<and> threads s' = threads state_holding \<and>
      acquired (trace s') = acquired (trace state_holding) \<and>
      released (trace s') = released (trace state_holding) @ [2]"
    by blast
  from slot_accounting [OF start at_return, of 2 0 task_one 0] vals
  have c: "mset (released (trace state_failing)) =
       mset [start_port cfg_two_ports .. end_port cfg_two_ports] \<and>
     distinct (released (trace state_failing)) \<and>
     mset (probed (trace state_failing)) \<subseteq># mset (launched (trace state_failing)) \<and>
     0 \<le> slots_in_use cfg_two_ports state_failing \<and>
     slots_in_use cfg_two_ports state_failing \<le> concurrency cfg_two_ports"
    by blast
  from start posting at_holding at_return post hold vals a b c show ?thesis
    by blast
qed

subsection \<open>The drain loop\<close>

text \<open>
  C2: while \<open>main\<close> is in iteration \<open>i\<close> of the drain loop, the permits it has
  taken and the probes in flight together are at most \<open>concurrency\<close>, so it cannot take
  the last permit while a probe is in flight; it is blocked in its \<open>sem_wait\<close> exactly
  when every permit it has not taken is held by a probe in flight. When \<open>main\<close> has
  returned, its status is 0, no probe is in flight, every worker has executed its
  \<open>sem_post\<close>, \<open>scan_port\<close> has returned for every thread that was created, and
  every socket that was opened has been closed.
\<close>

theorem drain_barrier:
  assumes "c_int (concurrency cfg)" "main_setup env cfg = Inr s0"
    "exec env cfg sched s0 = Some s"
  shows "(pc s = Drain i \<longrightarrow> i + int (length (in_flight s)) \<le> concurrency cfg) \<and>
    (pc s = Drain i \<and> i < concurrency cfg \<longrightarrow>
       (main_step env cfg s = None \<longleftrightarrow> i + int (length (in_flight s)) = concurrency cfg)) \<and>
    (pc s = Returned r \<longrightarrow>
       r = 0 \<and> in_flight s = [] \<and> (\<forall>tw \<in> set (threads s). snd tw = W_done) \<and>
       mset (probed (trace s)) = mset (launched (trace s)) \<and>
       mset (opened (trace s)) = mset (closed (trace s)))"
proof -
  have inv: "run_inv env cfg s"
    using assms by (rule run_inv_reachable)
  then have slot: "slot_inv cfg s" and rel: "release_inv env cfg s"
    by (simp_all add: run_inv_def)
  from slot have drain: "pc s = Drain i \<longrightarrow> i + int (length (in_flight s)) \<le> concurrency cfg"
    by (auto simp: slot_inv_def)
  have ret: "r = 0 \<and> in_flight s = [] \<and> (\<forall>tw \<in> set (threads s). snd tw = W_done) \<and>
      mset (probed (trace s)) = mset (launched (trace s)) \<and>
      mset (opened (trace s)) = mset (closed (trace s))" if pc: "pc s = Returned r"
  proof -
    note idle = all_done_at_return(1) [OF slot pc]
    from idle have "\<forall>tw \<in> set (threads s). snd tw = W_done"
      by (simp add: in_flight_def filter_empty_conv)
    with all_done_at_return(3) [OF slot pc] idle final_state(3,4) [OF inv pc] rel
    show ?thesis
      by (simp add: release_inv_def)
  qed
  from slot have blocked: "pc s = Drain i \<and> i < concurrency cfg \<longrightarrow>
      (main_step env cfg s = None \<longleftrightarrow> i + int (length (in_flight s)) = concurrency cfg)"
    by (auto simp: slot_inv_def)
  from drain blocked ret show ?thesis
    by blast
qed

text \<open>The run of two ports where every launch succeeds, at the return of \<open>main\<close>.\<close>

theorem drain_barrier_witness:
  "c_int (concurrency cfg_two_ports) \<and>
   main_setup env_ok cfg_two_ports = Inr init_two_ports \<and>
   exec env_ok cfg_two_ports sched_complete init_two_ports = Some state_complete \<and>
   pc state_complete = Returned 0 \<and>
   in_flight state_complete = [] \<and>
   mset (probed (trace state_complete)) = mset (launched (trace state_complete)) \<and>
   mset (opened (trace state_complete)) = mset (closed (trace state_complete))"
proof -
  note run = example_setup(4) example_setup(2) example_exec(3)
  have "pc state_complete = Returned 0"
    by (simp add: state_complete_def)
  with run drain_barrier [OF run, of 0 0] show ?thesis
    by blast
qed

subsection \<open>One result for each port\<close>

text \<open>
  C5, as the code has it: when \<open>malloc\<close> fails for port 2 the dispatcher prints the
  error, gives the slot back and goes on; \<open>scan_port\<close> is never called for port 2. The
  scan of the ports 1 to 2 ends with one result, not two.
\<close>

theorem failed_launch_gives_no_result:
  "main_setup env_malloc_fails cfg_two_ports = Inr init_two_ports \<and>
   exec env_malloc_fails cfg_two_ports sched_failing init_two_ports = Some state_failing \<and>
   pc state_failing = Returned 0 \<and>
   probed (trace state_failing) = [1] \<and>
   int (length (probed (trace state_failing))) \<noteq>
     end_port cfg_two_ports - start_port cfg_two_ports + 1"
  using example_setup(1) example_exec(2)
  by (simp add: state_failing_def cfg_two_ports_def)

text \<open>
  C5, amended: with at least one slot every run can be continued to the return of
  \<open>main\<close>, and no run has more steps than the work of the initial state. At no time
  has a port two results. When \<open>main\<close> has returned, the ports with a result are
  exactly the ports of the range whose \<open>malloc\<close> and \<open>pthread_create\<close> succeeded,
  each once; so when no launch fails they are all the ports of the range, and their
  number is \<open>end_port - start_port + 1\<close>.
\<close>

theorem one_result_per_launched_port:
  assumes "c_int (concurrency cfg)" "main_setup env cfg = Inr s0"
    "exec env cfg sched s0 = Some s"
  shows "(1 \<le> concurrency cfg \<longrightarrow>
       (\<exists>sched' s'. exec env cfg sched' s = Some s' \<and> pc s' = Returned 0)) \<and>
    length sched \<le> work cfg s0 \<and>
    distinct (probed (trace s)) \<and>
    (pc s = Returned r \<longrightarrow>
       mset (probed (trace s)) =
         mset (filter (launch_ok env) [start_port cfg .. end_port cfg]) \<and>
       ((\<forall>p \<in> {start_port cfg .. end_port cfg}. launch_ok env p) \<longrightarrow>
          mset (probed (trace s)) = mset [start_port cfg .. end_port cfg] \<and>
          int (length (probed (trace s))) = end_port cfg - start_port cfg + 1))"
proof -
  have inv0: "run_inv env cfg s0"
    using assms(1,2) by (rule run_inv_setup)
  have inv: "run_inv env cfg s"
    using assms by (rule run_inv_reachable)
  have completes: "1 \<le> concurrency cfg \<longrightarrow>
      (\<exists>sched' s'. exec env cfg sched' s = Some s' \<and> pc s' = Returned 0)"
    using can_complete [OF _ inv] by blast
  from exec_bounded [OF inv0 assms(3)] have bounded: "length sched \<le> work cfg s0"
    by simp
  have "mset (probed (trace s)) \<subseteq># mset (acquired (trace s))"
    using probed_subset_launched [OF inv] launched_subset_acquired [OF inv]
    by (rule subset_mset.order_trans)
  then have dist: "distinct (probed (trace s))"
    using distinct_acquired [OF inv] by (rule distinct_of_subset)
  have final: "mset (probed (trace s)) =
        mset (filter (launch_ok env) [start_port cfg .. end_port cfg]) \<and>
      ((\<forall>p \<in> {start_port cfg .. end_port cfg}. launch_ok env p) \<longrightarrow>
         mset (probed (trace s)) = mset [start_port cfg .. end_port cfg] \<and>
         int (length (probed (trace s))) = end_port cfg - start_port cfg + 1)"
    if pc: "pc s = Returned r"
  proof -
    note eq = final_state(4) [OF inv pc]
    have all: "mset (probed (trace s)) = mset [start_port cfg .. end_port cfg] \<and>
        int (length (probed (trace s))) = end_port cfg - start_port cfg + 1"
      if ok: "\<forall>p \<in> {start_port cfg .. end_port cfg}. launch_ok env p"
    proof -
      from ok have "filter (launch_ok env) [start_port cfg .. end_port cfg] =
          [start_port cfg .. end_port cfg]"
        by (simp add: filter_id_conv)
      with eq have m: "mset (probed (trace s)) = mset [start_port cfg .. end_port cfg]"
        by simp
      then have "length (probed (trace s)) = length [start_port cfg .. end_port cfg]"
        by (rule mset_eq_length)
      with setup_state(4) [OF assms(1,2)] m show ?thesis
        by simp
    qed
    from eq all show ?thesis
      by blast
  qed
  from completes bounded dist final show ?thesis
    by blast
qed

theorem one_result_per_launched_port_witness:
  "c_int (concurrency cfg_two_ports) \<and>
   main_setup env_ok cfg_two_ports = Inr init_two_ports \<and>
   exec env_ok cfg_two_ports sched_complete init_two_ports = Some state_complete \<and>
   pc state_complete = Returned 0 \<and>
   length sched_complete \<le> work cfg_two_ports init_two_ports \<and>
   probed (trace state_complete) = [1, 2] \<and>
   distinct (probed (trace state_complete)) \<and>
   mset (probed (trace state_complete)) =
     mset (filter (launch_ok env_ok) [start_port cfg_two_ports .. end_port cfg_two_ports])"
proof -
  note run = example_setup(4) example_setup(2) example_exec(3)
  have pc: "pc state_complete = Returned 0" and "probed (trace state_complete) = [1, 2]"
    by (simp_all add: state_complete_def)
  with run one_result_per_launched_port [OF run, of 0] show ?thesis
    by blast
qed

subsection \<open>A launch that fails\<close>

text \<open>
  C7: when \<open>main\<close> holds the slot of port \<open>p\<close> and \<open>malloc\<close> or
  \<open>pthread_create\<close> fails for \<open>p\<close>, its next step prints the error, gives the slot
  back and goes to port \<open>p + 1\<close>, creating no thread. From there \<open>main\<close> can move
  again at once, the run can be continued to the return of \<open>main\<close>, and whenever
  \<open>main\<close> returns every port of the range whose own launch succeeded has been probed.
\<close>

theorem launch_failure_continues:
  assumes "c_int (concurrency cfg)" "main_setup env cfg = Inr s0"
    "exec env cfg sched s0 = Some s" "pc s = Holding p" "\<not> launch_ok env p"
  shows "\<exists>s'. main_step env cfg s = Some s' \<and>
    sem s' = sem s + 1 \<and> pc s' = At_wait (p + 1) \<and> threads s' = threads s \<and>
    trace s' = trace s @ [launch_diagnostic env p, Sem_release p] \<and>
    main_step env cfg s' \<noteq> None \<and>
    (\<exists>sched' s''. exec env cfg sched' s' = Some s'' \<and> pc s'' = Returned 0) \<and>
    (\<forall>sched' s'' r. exec env cfg sched' s' = Some s'' \<and> pc s'' = Returned r \<longrightarrow>
       mset (probed (trace s'')) =
         mset (filter (launch_ok env) [start_port cfg .. end_port cfg]))"
proof -
  have inv: "run_inv env cfg s"
    using assms(1-3) by (rule run_inv_reachable)
  with assms(4) have nonneg: "0 \<le> sem s" and slots: "1 \<le> concurrency cfg"
    by (simp_all add: run_inv_def slot_inv_def)
  define s' where "s' = s\<lparr>sem := sem s + 1, pc := At_wait (p + 1),
    trace := trace s @ [launch_diagnostic env p, Sem_release p]\<rparr>"
  from assms(4,5) have step: "main_step env cfg s = Some s'"
    by (auto simp: s'_def launch_ok_def launch_diagnostic_def)
  then have "step env cfg Main s = Some s'"
    by simp
  with inv have inv': "run_inv env cfg s'"
    by (rule run_inv_step)
  from nonneg have next_step: "main_step env cfg s' \<noteq> None"
    by (simp add: s'_def)
  note completes = can_complete [OF slots inv']
  have rest: "mset (probed (trace s'')) =
      mset (filter (launch_ok env) [start_port cfg .. end_port cfg])"
    if "exec env cfg sched' s' = Some s''" "pc s'' = Returned r" for sched' s'' r
  proof -
    from inv' that(1) have "run_inv env cfg s''"
      by (rule run_inv_exec)
    from final_state(4) [OF this that(2)] show ?thesis .
  qed
  have fields: "sem s' = sem s + 1" "pc s' = At_wait (p + 1)" "threads s' = threads s"
    "trace s' = trace s @ [launch_diagnostic env p, Sem_release p]"
    by (simp_all add: s'_def)
  from step fields next_step completes rest show ?thesis
    by blast
qed

theorem launch_failure_continues_witness:
  "c_int (concurrency cfg_two_ports) \<and>
   main_setup env_malloc_fails cfg_two_ports = Inr init_two_ports \<and>
   exec env_malloc_fails cfg_two_ports sched_to_holding init_two_ports = Some state_holding \<and>
   pc state_holding = Holding 2 \<and>
   \<not> launch_ok env_malloc_fails 2 \<and>
   (\<exists>s'. main_step env_malloc_fails cfg_two_ports state_holding = Some s' \<and>
      sem s' = sem state_holding + 1 \<and> pc s' = At_wait (2 + 1) \<and>
      threads s' = threads state_holding \<and>
      trace s' = trace state_holding @ [launch_diagnostic env_malloc_fails 2, Sem_release 2] \<and>
      main_step env_malloc_fails cfg_two_ports s' \<noteq> None)"
proof -
  note run = example_setup(4) example_setup(1) example_exec(1)
  have pc: "pc state_holding = Holding 2" and fails: "\<not> launch_ok env_malloc_fails 2"
    by (simp_all add: state_holding_def env_malloc_fails_def launch_ok_def)
  from launch_failure_continues [OF run pc fails] run pc fails show ?thesis
    by blast
qed

subsection \<open>The order of the dispatch\<close>




subsection \<open>Output without the verbose flag\<close>

lemma thread_verbose:
  assumes "dispatch_inv env cfg s" "tw \<in> set (threads s)"
  shows "task_verbose (fst tw) = verbose cfg"
proof -
  from assms(2) obtain k where k: "k < length (threads s)" "threads s ! k = tw"
    by (auto simp: in_set_conv_nth)
  then have "threads s ! k = (fst tw, snd tw)"
    by simp
  from thread_task [OF assms(1) k(1) this] show ?thesis
    by (metis new_task_def scan_task.select_convs(4))
qed

text \<open>
  C10, as the code has it: a run with the verbose flag off is not silent. The
  \<open>perror\<close> of \<open>main\<close> for a \<open>malloc\<close> or \<open>pthread_create\<close> that fails is not
  guarded by the flag (lines 174 and 185), and neither is the message for an invalid
  port range (line 156).
\<close>

theorem quiet_run_prints_diagnostics:
  "verbose cfg_two_ports = 0 \<and>
   main_setup env_malloc_fails cfg_two_ports = Inr init_two_ports \<and>
   exec env_malloc_fails cfg_two_ports sched_failing init_two_ports = Some state_failing \<and>
   pc state_failing = Returned 0 \<and>
   filter is_output (trace state_failing) = [Perror ''malloc''] \<and>
   verbose cfg_reversed = 0 \<and>
   run env_ok cfg_reversed [] = Inl ([Fprintf_stderr ''Invalid port range\<newline>''], EXIT_FAILURE)"
  using example_setup(1) example_exec(2)
  by (simp add: state_failing_def cfg_two_ports_def cfg_reversed_def run_def main_setup_def)

text \<open>
  C10, amended: with the verbose flag off, \<open>scan_port\<close> prints nothing, whatever the
  system calls answer, and in a run every task carries the flag of the configuration, so
  no probe prints a line for its port. The lines that a run prints are exactly the
  errors \<open>main\<close> reports for the ports whose launch failed, one for each, in the
  order of the ports; when no launch fails the run prints nothing at all.
\<close>

theorem quiet_without_verbose:
  assumes "c_int (concurrency cfg)" "main_setup env cfg = Inr s0"
    "exec env cfg sched s0 = Some s" "verbose cfg = 0"
  shows "filter is_output (fst (scan_port os h p t 0)) = [] \<and>
    (\<forall>tw \<in> set (threads s). task_verbose (fst tw) = 0) \<and>
    filter is_output (trace s) =
      map (launch_diagnostic env)
        (filter (\<lambda>p. \<not> launch_ok env p) [start_port cfg .. cur_port cfg (pc s) - 1]) \<and>
    ((\<forall>p \<in> {start_port cfg .. end_port cfg}. launch_ok env p) \<longrightarrow>
       filter is_output (trace s) = [])"
proof -
  have inv: "run_inv env cfg s"
    using assms(1-3) by (rule run_inv_reachable)
  with assms(4) have slot: "slot_inv cfg s" and d: "dispatch_inv env cfg s"
    and q: "quiet_inv env cfg s"
    by (simp_all add: run_inv_def)
  from thread_verbose [OF d] assms(4) have tasks: "\<forall>tw \<in> set (threads s). task_verbose (fst tw) = 0"
    by simp
  from q have out: "filter is_output (trace s) =
      map (launch_diagnostic env)
        (filter (\<lambda>p. \<not> launch_ok env p) [start_port cfg .. cur_port cfg (pc s) - 1])"
    by (simp add: quiet_inv_def)
  from slot have "cur_port cfg (pc s) - 1 \<le> end_port cfg"
    by (cases "pc s") (simp_all add: slot_inv_def)
  then have silent: "(\<forall>p \<in> {start_port cfg .. end_port cfg}. launch_ok env p) \<longrightarrow>
      filter is_output (trace s) = []"
    unfolding out by (auto simp: filter_empty_conv)
  from scan_port_quiet [of os h p t] tasks out silent show ?thesis
    by blast
qed

theorem quiet_without_verbose_witness:
  "c_int (concurrency cfg_two_ports) \<and>
   main_setup env_malloc_fails cfg_two_ports = Inr init_two_ports \<and>
   exec env_malloc_fails cfg_two_ports sched_failing init_two_ports = Some state_failing \<and>
   verbose cfg_two_ports = 0 \<and>
   filter is_output (fst (scan_port os_open ''127.0.0.1'' 1 1 0)) = [] \<and>
   filter is_output (trace state_failing) = [Perror ''malloc''] \<and>
   filter is_output (trace state_failing) =
     map (launch_diagnostic env_malloc_fails)
       (filter (\<lambda>p. \<not> launch_ok env_malloc_fails p)
         [start_port cfg_two_ports .. cur_port cfg_two_ports (pc state_failing) - 1])"
proof -
  note run = example_setup(4) example_setup(1) example_exec(2)
  have v: "verbose cfg_two_ports = 0"
    and "filter is_output (trace state_failing) = [Perror ''malloc'']"
    by (simp_all add: cfg_two_ports_def state_failing_def)
  with run quiet_without_verbose [OF run v, of os_open "''127.0.0.1''" 1 1] show ?thesis
    by blast
qed

end
